theory Spec2Isabelle
  imports Main
begin

section \<open>JavaScript strings\<close>

text \<open>
  The string operations of the JavaScript runtime that the sources call:
  \<^verbatim>\<open>String.prototype.split\<close> with a one-character separator, \<^verbatim>\<open>Array.prototype.join\<close>,
  \<^verbatim>\<open>String.prototype.includes\<close> and \<^verbatim>\<open>String.prototype.replace\<close> with a string pattern
  and a string replacement.
\<close>

text \<open>\<^verbatim>\<open>s.startsWith(pat)\<close>: \<open>pat\<close> is a prefix of \<open>s\<close>.\<close>

fun startsWith :: "string \<Rightarrow> string \<Rightarrow> bool" where
  "startsWith s [] = True"
| "startsWith [] (p # ps) = False"
| "startsWith (c # cs) (p # ps) = (c = p \<and> startsWith cs ps)"

text \<open>\<^verbatim>\<open>s.indexOf(pat)\<close>: the position of the first occurrence, \<open>None\<close> for \<open>-1\<close>.\<close>

fun indexOf :: "string \<Rightarrow> string \<Rightarrow> nat option" where
  "indexOf [] pat = (if pat = [] then Some 0 else None)"
| "indexOf (c # cs) pat =
     (if startsWith (c # cs) pat then Some 0 else map_option Suc (indexOf cs pat))"

text \<open>\<^verbatim>\<open>s.includes(pat)\<close>.\<close>

definition includes_str :: "string \<Rightarrow> string \<Rightarrow> bool" where
  "includes_str s pat = (indexOf s pat \<noteq> None)"

text \<open>
  \<^verbatim>\<open>s.split(sep)\<close> for a separator of one character: the pieces between the
  separators, empty pieces included; the empty string splits into one empty piece.
\<close>

fun js_split :: "char \<Rightarrow> string \<Rightarrow> string list" where
  "js_split sep [] = [[]]"
| "js_split sep (c # cs) =
     (if c = sep then [] # js_split sep cs
      else (case js_split sep cs of
              [] \<Rightarrow> [[c]]
            | t # ts \<Rightarrow> (c # t) # ts))"

text \<open>\<^verbatim>\<open>xs.join(sep)\<close>.\<close>

fun join :: "string \<Rightarrow> string list \<Rightarrow> string" where
  "join sep [] = []"
| "join sep [x] = x"
| "join sep (x # y # ys) = x @ sep @ join sep (y # ys)"

text \<open>
  The replacement text of \<^verbatim>\<open>replace\<close> when the pattern is a string (so there are no
  capture groups): in the replacement, \<^verbatim>\<open>$$\<close> stands for a dollar sign, \<^verbatim>\<open>$&\<close> for the
  matched text, \<^verbatim>\<open>$`\<close> for the text before the match and \<^verbatim>\<open>$'\<close> for the text after
  it; every other character, a dollar sign before anything else included, stands for
  itself.
\<close>

fun getSubstitution :: "string \<Rightarrow> string \<Rightarrow> string \<Rightarrow> string \<Rightarrow> string" where
  "getSubstitution matched preceding following [] = []"
| "getSubstitution matched preceding following [c] = [c]"
| "getSubstitution matched preceding following (c # d # ds) =
     (if c = CHR ''$'' \<and> d = CHR ''$'' then CHR ''$'' # getSubstitution matched preceding following ds
      else if c = CHR ''$'' \<and> d = CHR ''&'' then matched @ getSubstitution matched preceding following ds
      else if c = CHR ''$'' \<and> d = CHR 0x60 then preceding @ getSubstitution matched preceding following ds
      else if c = CHR ''$'' \<and> d = CHR 0x27 then following @ getSubstitution matched preceding following ds
      else c # getSubstitution matched preceding following (d # ds))"

text \<open>
  \<^verbatim>\<open>s.replace(pat, repl)\<close> with a string pattern: only the first occurrence is
  replaced, and a string without the pattern is returned as it is.
\<close>

definition replace :: "string \<Rightarrow> string \<Rightarrow> string \<Rightarrow> string" where
  "replace s pat repl =
     (case indexOf s pat of
        None \<Rightarrow> s
      | Some i \<Rightarrow>
          take i s
          @ getSubstitution pat (take i s) (drop (i + length pat) s) repl
          @ drop (i + length pat) s)"

section \<open>Data model\<close>

text \<open>\<^verbatim>\<open>ExecutionStatus\<close> (types/status.types), the statuses the executor publishes.\<close>

datatype ExecutionStatus = RUNNING | SKIPPED | SUCCESS | FAILURE

text \<open>\<^verbatim>\<open>StepCommand\<close> (types/step.types), with the fields the executor reads.\<close>

record StepCommand =
  name :: string
  command :: string
  onlyOn :: "string option"

text \<open>
  \<^verbatim>\<open>ExecuteStepOptions\<close>. The package type is kept as the string the source compares
  it with (\<^verbatim>\<open>type === 'python'\<close>).
\<close>

record ExecuteStepOptions =
  packageName :: string
  packagePath :: string
  rootDir :: string
  type :: "string option"
  venvActivate :: "string option"
  hookArguments :: string
  stagedFiles :: "string list"

record StepExecutor =
  step :: StepCommand
  options :: ExecuteStepOptions
  skipped :: bool

text \<open>
  A thrown error: an \<^verbatim>\<open>Error\<close> with its message, or the \<^verbatim>\<open>ERR_INVALID_ARG_VALUE\<close> that
  the runtime raises for an argument it refuses, with the name of the argument.
\<close>

datatype js_error = Error string | ERR_INVALID_ARG_VALUE string

text \<open>
  The truth value JavaScript gives an optional string in a condition: \<^verbatim>\<open>undefined\<close>
  and the empty string are false.
\<close>

definition truthy :: "string option \<Rightarrow> bool" where
  "truthy v = (case v of None \<Rightarrow> False | Some s \<Rightarrow> s \<noteq> [])"

text \<open>What a template literal renders for an optional string.\<close>

definition templateString :: "string option \<Rightarrow> string" where
  "templateString v = (case v of None \<Rightarrow> ''undefined'' | Some s \<Rightarrow> s)"

text \<open>
  \<^verbatim>\<open>getMatchedFiles\<close> (utils/run-helpers) is a parameter of the model: given the
  pattern, the package path, the staged files and the root directory it returns the
  matched files, or throws; a thrown value is kept as the text \<^verbatim>\<open>`${err}`\<close> renders.
\<close>

type_synonym matcher = "string \<Rightarrow> string \<Rightarrow> string list \<Rightarrow> string \<Rightarrow> string + string list"

text \<open>The payload of a \<^verbatim>\<open>StepStatusChanged\<close> event.\<close>

record StatusEvent =
  evPackageName :: string
  stepName :: string
  status :: ExecutionStatus

text \<open>
  What the executor acts on outside itself: the events published on the bus, in order,
  the child processes launched, each with its command and working directory, and the
  paths that name an existing directory.
\<close>

record World =
  bus :: "StatusEvent list"
  children :: "(string \<times> string) list"
  directories :: "string set"

text \<open>The value \<^verbatim>\<open>run\<close> resolves with: \<^verbatim>\<open>null\<close>, or the step and the error message.\<close>

type_synonym outcome = "(StepCommand \<times> js_error) option"

datatype 'a promise = Pending | Resolved 'a | Rejected js_error

text \<open>
  The child process object that \<^verbatim>\<open>exec\<close> returns: its process was spawned, or the spawn
  failed, and then the object emits \<^verbatim>\<open>'error'\<close> and neither data nor \<^verbatim>\<open>'exit'\<close>.
\<close>

datatype child = Spawned | SpawnFailed

text \<open>
  What a call of \<^verbatim>\<open>run\<close> holds: the promise it returned and, when it is not skipped,
  the two output buffers and the child process object \<^verbatim>\<open>cp\<close>, if \<^verbatim>\<open>exec\<close> returned one.
\<close>

record RunClosure =
  out :: string
  error :: string
  promise :: "outcome promise"
  cp :: "child option"

text \<open>What a spawned child process does, as the executor sees it through its listeners.\<close>

datatype cp_event = StdoutData string | StderrData string | Exit "int option"

section \<open>The step executor\<close>

text \<open>
  \<^verbatim>\<open>isSkipped\<close> either returns or throws. Its condition \<^verbatim>\<open>if (this.step.onlyOn)\<close> holds
  for a pattern that is defined and not the empty string.
\<close>

definition isSkipped :: "matcher \<Rightarrow> StepCommand \<Rightarrow> ExecuteStepOptions \<Rightarrow> js_error + bool" where
  "isSkipped getMatchedFiles st opts =
     (case onlyOn st of
        None \<Rightarrow> Inr False
      | Some pat \<Rightarrow>
          if pat = [] then Inr False
          else (case getMatchedFiles pat (packagePath opts) (stagedFiles opts) (rootDir opts) of
                  Inr matchedFiles \<Rightarrow> if length matchedFiles = 0 then Inr True else Inr False
                | Inl err \<Rightarrow>
                    Inl (Error (''Invalid '' @ [CHR 0x60] @ ''onlyOn'' @ [CHR 0x60]
                                @ '' pattern: '' @ pat @ ''\<newline>'' @ err))))"

definition constructor :: "matcher \<Rightarrow> StepCommand \<Rightarrow> ExecuteStepOptions \<Rightarrow> js_error + StepExecutor" where
  "constructor getMatchedFiles st opts =
     (case isSkipped getMatchedFiles st opts of
        Inl e \<Rightarrow> Inl e
      | Inr b \<Rightarrow> Inr \<lparr>step = st, options = opts, skipped = b\<rparr>)"

definition emitStepStatus :: "StepExecutor \<Rightarrow> ExecutionStatus \<Rightarrow> World \<Rightarrow> World" where
  "emitStepStatus this s w =
     w\<lparr>bus := bus w @ [\<lparr>evPackageName = packageName (options this),
                         stepName = name (step this), status = s\<rparr>]\<rparr>"

definition computeExecutedCommand :: "StepExecutor \<Rightarrow> string" where
  "computeExecutedCommand this =
     (let execute =
            (if type (options this) = Some ''python'' \<and> truthy (venvActivate (options this))
             then ''source '' @ templateString (venvActivate (options this)) @ '' && ''
                  @ command (step this) @ '' && deactivate''
             else command (step this));
          args = filter (\<lambda>arg. arg \<noteq> []) (js_split CHR '' '' (hookArguments (options this)))
      in replace execute ''{args}'' ([CHR 0x22] @ join '' '' args @ [CHR 0x22]))"

text \<open>
  \<^verbatim>\<open>exec(command, { cwd })\<close> of \<^verbatim>\<open>child_process\<close>. It throws at once for a command
  that is empty or holds a NUL character, and for a working directory that holds one.
  Otherwise it returns a child process object: the process is launched when the working
  directory exists, and the spawn fails when it does not.
\<close>

definition exec :: "string \<Rightarrow> string \<Rightarrow> World \<Rightarrow> js_error + child \<times> World" where
  "exec cmd cwd w =
     (if cmd = [] \<or> CHR 0x00 \<in> set cmd then Inl (ERR_INVALID_ARG_VALUE ''file'')
      else if CHR 0x00 \<in> set cwd then Inl (ERR_INVALID_ARG_VALUE ''options.cwd'')
      else if cwd \<in> directories w
        then Inr (Spawned, w\<lparr>children := children w @ [(cmd, cwd)]\<rparr>)
      else Inr (SpawnFailed, w))"

text \<open>The \<^verbatim>\<open>resolve\<close> of a promise: it settles a pending promise and is ignored afterwards.\<close>

definition resolve :: "outcome \<Rightarrow> RunClosure \<Rightarrow> RunClosure" where
  "resolve v c = (case promise c of Pending \<Rightarrow> c\<lparr>promise := Resolved v\<rparr> | _ \<Rightarrow> c)"

text \<open>
  \<^verbatim>\<open>run\<close>, up to the point where it returns its promise. The body given to
  \<^verbatim>\<open>new Promise\<close> runs at once, and an exception thrown in it rejects the promise: so
  does an exception of \<^verbatim>\<open>exec\<close>, and then no listener is registered.
\<close>

definition run :: "StepExecutor \<Rightarrow> World \<Rightarrow> RunClosure \<times> World" where
  "run this w =
     (let w1 = emitStepStatus this RUNNING w
      in if skipped this
         then (\<lparr>out = [], error = [], promise = Resolved None, cp = None\<rparr>,
               emitStepStatus this SKIPPED w1)
         else (let cmd = computeExecutedCommand this
               in case exec cmd (packagePath (options this)) w1 of
                    Inl e \<Rightarrow> (\<lparr>out = [], error = [], promise = Rejected e, cp = None\<rparr>, w1)
                  | Inr (child, w2) \<Rightarrow>
                      (\<lparr>out = [], error = [], promise = Pending, cp = Some child\<rparr>, w2)))"

text \<open>
  The three listeners \<^verbatim>\<open>run\<close> registers on the child process, by the event they
  handle. \<^verbatim>\<open>chalk.bold\<close> is the parameter \<open>bold\<close>.
\<close>

fun listener ::
  "(string \<Rightarrow> string) \<Rightarrow> StepExecutor \<Rightarrow> RunClosure \<times> World \<Rightarrow> cp_event \<Rightarrow> RunClosure \<times> World"
where
  "listener bold this (c, w) (StdoutData chunk) = (c\<lparr>out := out c @ ''\<newline>'' @ chunk\<rparr>, w)"
| "listener bold this (c, w) (StderrData chunk) = (c\<lparr>error := error c @ ''\<newline>'' @ chunk\<rparr>, w)"
| "listener bold this (c, w) (Exit code) =
     (if code = Some 0
      then (resolve None c, emitStepStatus this SUCCESS w)
      else (resolve (Some (step this,
                           Error (error c @ bold ''\<newline>stdout :\<newline>'' @ out c))) c,
            emitStepStatus this FAILURE w))"

text \<open>
  A whole run: \<^verbatim>\<open>run\<close> is called, and the child process it spawned, if any, then
  delivers its events in order. Without a spawned child process no listener is ever
  called, whatever time passes.
\<close>

definition run_with ::
  "(string \<Rightarrow> string) \<Rightarrow> StepExecutor \<Rightarrow> cp_event list \<Rightarrow> World \<Rightarrow> RunClosure \<times> World"
where
  "run_with bold this events w =
     (if cp (fst (run this w)) = Some Spawned
      then foldl (listener bold this) (run this w) events
      else run this w)"

text \<open>\<open>isExit\<close> tells the \<^verbatim>\<open>'exit'\<close> events from the data events.\<close>

fun isExit :: "cp_event \<Rightarrow> bool" where
  "isExit (Exit code) = True"
| "isExit (StdoutData chunk) = False"
| "isExit (StderrData chunk) = False"

text \<open>The chunks a process wrote to its standard output and to its standard error.\<close>

fun stdoutChunks :: "cp_event list \<Rightarrow> string list" where
  "stdoutChunks [] = []"
| "stdoutChunks (StdoutData chunk # es) = chunk # stdoutChunks es"
| "stdoutChunks (e # es) = stdoutChunks es"

fun stderrChunks :: "cp_event list \<Rightarrow> string list" where
  "stderrChunks [] = []"
| "stderrChunks (StderrData chunk # es) = chunk # stderrChunks es"
| "stderrChunks (e # es) = stderrChunks es"

text \<open>A buffer after the given chunks: each chunk follows a line break.\<close>

definition buffered :: "string list \<Rightarrow> string" where
  "buffered chunks = concat (map (\<lambda>chunk. ''\<newline>'' @ chunk) chunks)"

section \<open>Writing the ignore files\<close>

text \<open>An error of the file system, with the path given to the call that failed.\<close>

datatype fs_error = ENOENT string | EISDIR string | EACCES string

text \<open>
  The file system as \<^verbatim>\<open>writeGitIgnoreFiles\<close> uses it. \<open>realpath\<close> is how the system
  resolves a path, so that two spellings of a path name one file; \<open>files\<close> gives the
  content of each regular file, \<open>dirs\<close> the directories and \<open>denied\<close> what the process
  may neither read nor write, all three by resolved path. \<open>logged\<close> holds the lines
  given to the logger, each with its level.
\<close>

record FileSystem =
  files :: "string \<rightharpoonup> string"
  dirs :: "string set"
  denied :: "string set"
  realpath :: "string \<Rightarrow> string"
  logged :: "(string \<times> string) list"

definition logger :: "string \<Rightarrow> string \<Rightarrow> FileSystem \<Rightarrow> FileSystem" where
  "logger level msg fs = fs\<lparr>logged := logged fs @ [(level, msg)]\<rparr>"

text \<open>The directory part of a path: the path without its last component.\<close>

definition dirname :: "string \<Rightarrow> string" where
  "dirname path = join ''/'' (butlast (js_split CHR ''/'' path))"

definition existsSync :: "string \<Rightarrow> FileSystem \<Rightarrow> bool" where
  "existsSync path fs =
     (files fs (realpath fs path) \<noteq> None \<or> realpath fs path \<in> dirs fs)"

definition readFileSync :: "string \<Rightarrow> FileSystem \<Rightarrow> fs_error + string" where
  "readFileSync path fs =
     (if realpath fs path \<in> dirs fs then Inl (EISDIR path)
      else if realpath fs path \<in> denied fs then Inl (EACCES path)
      else (case files fs (realpath fs path) of
              None \<Rightarrow> Inl (ENOENT path)
            | Some content \<Rightarrow> Inr content))"

text \<open>\<^verbatim>\<open>writeFileSync\<close> fails when the directory of the file is missing.\<close>

definition writeFileSync :: "string \<Rightarrow> string \<Rightarrow> FileSystem \<Rightarrow> fs_error + FileSystem" where
  "writeFileSync path content fs =
     (if realpath fs path \<in> dirs fs then Inl (EISDIR path)
      else if realpath fs (dirname path) \<notin> dirs fs then Inl (ENOENT path)
      else if realpath fs path \<in> denied fs then Inl (EACCES path)
      else Inr (fs\<lparr>files := (files fs)(realpath fs path \<mapsto> content)\<rparr>))"

text \<open>\<^verbatim>\<open>appendFileSync\<close> with the flag \<^verbatim>\<open>a+\<close>: a missing file is created.\<close>

definition appendFileSync :: "string \<Rightarrow> string \<Rightarrow> FileSystem \<Rightarrow> fs_error + FileSystem" where
  "appendFileSync path content fs =
     (if realpath fs path \<in> dirs fs then Inl (EISDIR path)
      else if realpath fs path \<in> denied fs then Inl (EACCES path)
      else (case files fs (realpath fs path) of
              Some old \<Rightarrow> Inr (fs\<lparr>files := (files fs)(realpath fs path \<mapsto> old @ content)\<rparr>)
            | None \<Rightarrow>
                if realpath fs (dirname path) \<in> dirs fs
                then Inr (fs\<lparr>files := (files fs)(realpath fs path \<mapsto> content)\<rparr>)
                else Inl (ENOENT path)))"

text \<open>
  The body of the loop of \<^verbatim>\<open>writeGitIgnoreFiles\<close>, for one package path: the error it
  throws, if any, and the file system it leaves.
\<close>

definition writeGitIgnoreFile :: "string \<Rightarrow> FileSystem \<Rightarrow> fs_error option \<times> FileSystem" where
  "writeGitIgnoreFile pkgPath fs0 =
     (let fs = logger ''info'' (''- '' @ pkgPath) fs0
      in if \<not> existsSync (pkgPath @ ''/.gitignore'') fs
         then (let fs1 = logger ''warning''
                           (''Package '' @ pkgPath @ '' has no '' @ [CHR 0x60] @ ''.gitignore''
                            @ [CHR 0x60] @ '' file, creating it...'') fs
               in case writeFileSync (pkgPath @ ''/.gitignore'') ''.hooks/*.local.json\<newline>'' fs1 of
                    Inl e \<Rightarrow> (Some e, fs1)
                  | Inr fs2 \<Rightarrow> (None, fs2))
         else (let line = ''.hooks/*.local.json''
               in case readFileSync (pkgPath @ ''/.gitignore'') fs of
                    Inl e \<Rightarrow> (Some e, fs)
                  | Inr gitignoreContent \<Rightarrow>
                      if includes_str gitignoreContent line
                      then (case appendFileSync (pkgPath @ ''/.gitignore'')
                                   ''\<newline>.hooks/*.local.json\<newline>'' fs of
                              Inl e \<Rightarrow> (Some e, fs)
                            | Inr fs2 \<Rightarrow> (None, fs2))
                      else (None, fs)))"

text \<open>The loop: an error thrown by one package path ends it.\<close>

fun writeGitIgnoreFiles_loop :: "string list \<Rightarrow> FileSystem \<Rightarrow> fs_error option \<times> FileSystem" where
  "writeGitIgnoreFiles_loop [] fs = (None, fs)"
| "writeGitIgnoreFiles_loop (pkgPath # rest) fs =
     (case writeGitIgnoreFile pkgPath fs of
        (Some e, fs') \<Rightarrow> (Some e, fs')
      | (None, fs') \<Rightarrow> writeGitIgnoreFiles_loop rest fs')"

definition writeGitIgnoreFiles :: "string list \<Rightarrow> FileSystem \<Rightarrow> fs_error option \<times> FileSystem" where
  "writeGitIgnoreFiles packagesPath fs =
     writeGitIgnoreFiles_loop packagesPath
       (logger ''info'' (''Writing '' @ [CHR 0x60] @ ''.gitignore files'' @ [CHR 0x60]) fs)"

section \<open>The pattern matcher as the specification words it\<close>

text \<open>
  Modelled from the spec: \<^verbatim>\<open>getMatchedFiles\<close> (utils/run-helpers) is not among the
  sources. The specification gives its contract: \<^verbatim>\<open>match(pattern, basePath, files,
  rootDir)\<close> returns the files that lie under the package directory and satisfy the glob,
  the empty sequence if nothing matches, and fails with \<^verbatim>\<open>PatternError\<close> if the pattern
  is not a syntactically valid glob. The syntax of globs (\<open>validGlob\<close>) and the match of
  one file (\<open>matches\<close>) are not in the specification, and are parameters.
\<close>

definition getMatchedFiles_spec ::
  "(string \<Rightarrow> bool) \<Rightarrow> (string \<Rightarrow> string \<Rightarrow> string \<Rightarrow> string \<Rightarrow> bool) \<Rightarrow> matcher"
where
  "getMatchedFiles_spec validGlob matches pattern basePath paths root =
     (if validGlob pattern then Inr (filter (matches pattern basePath root) paths)
      else Inl ''PatternError'')"

text \<open>
  A glob syntax for the examples, after the specification's example of an invalid
  pattern, the unbalanced bracket: every opening bracket is closed.
\<close>

fun bracketsClosed :: "bool \<Rightarrow> string \<Rightarrow> bool" where
  "bracketsClosed opened [] = (\<not> opened)"
| "bracketsClosed opened (c # cs) =
     (if c = CHR ''['' then bracketsClosed True cs
      else if c = CHR '']'' then bracketsClosed False cs
      else bracketsClosed opened cs)"

section \<open>The command builder as the specification words it\<close>

text \<open>
  The specification tokenizes the hook arguments by splitting on whitespace, discards
  the empty tokens and rejoins the tokens with single spaces. \<open>tokenize\<close> scans the
  string once and cuts it at the separators, keeping the non-empty pieces;
  \<open>spec_arguments\<close> is the text the specification substitutes for the placeholder.
\<close>

definition isWhitespace :: "char \<Rightarrow> bool" where
  "isWhitespace c =
     (c = CHR '' '' \<or> c = CHR 0x09 \<or> c = CHR 0x0A \<or> c = CHR 0x0B \<or> c = CHR 0x0C \<or> c = CHR 0x0D)"

fun tokenize :: "(char \<Rightarrow> bool) \<Rightarrow> string \<Rightarrow> string \<Rightarrow> string list" where
  "tokenize isSep cur [] = (if cur = [] then [] else [cur])"
| "tokenize isSep cur (c # cs) =
     (if isSep c then (if cur = [] then tokenize isSep [] cs else cur # tokenize isSep [] cs)
      else tokenize isSep (cur @ [c]) cs)"

definition spec_arguments :: "string \<Rightarrow> string" where
  "spec_arguments hookArgs = join '' '' (tokenize isWhitespace [] hookArgs)"

text \<open>
  Two values \<^verbatim>\<open>computeExecutedCommand\<close> computes on its way, written out for the
  statements below: the variable \<^verbatim>\<open>execute\<close> before the interpolation, and the text
  given to \<^verbatim>\<open>replace\<close>.
\<close>

abbreviation wrappedCommand :: "StepExecutor \<Rightarrow> string" where
  "wrappedCommand this \<equiv>
     (if type (options this) = Some ''python'' \<and> truthy (venvActivate (options this))
      then ''source '' @ templateString (venvActivate (options this)) @ '' && ''
           @ command (step this) @ '' && deactivate''
      else command (step this))"

abbreviation quotedArguments :: "StepExecutor \<Rightarrow> string" where
  "quotedArguments this \<equiv>
     [CHR 0x22]
     @ join '' '' (filter (\<lambda>arg. arg \<noteq> []) (js_split CHR '' '' (hookArguments (options this))))
     @ [CHR 0x22]"

section \<open>Observations and sample configurations\<close>

text \<open>The statuses published between two states of the world, oldest first.\<close>

definition published :: "World \<Rightarrow> World \<Rightarrow> ExecutionStatus list" where
  "published w w' = map status (drop (length (bus w)) (bus w'))"

text \<open>The child processes launched between two states of the world.\<close>

definition launched :: "World \<Rightarrow> World \<Rightarrow> (string \<times> string) list" where
  "launched w w' = drop (length (children w)) (children w')"

text \<open>
  A command and a working directory for which \<^verbatim>\<open>exec\<close> launches a process: it accepts
  both, and the directory exists.
\<close>

definition spawnable :: "string \<Rightarrow> string \<Rightarrow> World \<Rightarrow> bool" where
  "spawnable cmd cwd w =
     (cmd \<noteq> [] \<and> CHR 0x00 \<notin> set cmd \<and> CHR 0x00 \<notin> set cwd \<and> cwd \<in> directories w)"

text \<open>A step restricted to Go files, the same step without restriction, and its options.\<close>

definition goStep :: StepCommand where
  "goStep = \<lparr>name = ''lint'', command = ''echo {args}'', onlyOn = Some ''*.go''\<rparr>"

definition plainStep :: StepCommand where
  "plainStep = \<lparr>name = ''lint'', command = ''echo {args}'', onlyOn = None\<rparr>"

definition pkgOptions :: ExecuteStepOptions where
  "pkgOptions = \<lparr>packageName = ''pkg'', packagePath = ''/r/pkg'', rootDir = ''/r'',
                  type = None, venvActivate = None, hookArguments = ''  a  b '',
                  stagedFiles = [''pkg/main.ts'']\<rparr>"

text \<open>The options of a Python package with a virtual environment.\<close>

definition pythonOptions :: ExecuteStepOptions where
  "pythonOptions = \<lparr>packageName = ''api'', packagePath = ''/r/api'', rootDir = ''/r'',
                     type = Some ''python'', venvActivate = Some ''/r/api/venv/bin/activate'',
                     hookArguments = ''  a  b '', stagedFiles = [''api/main.py'']\<rparr>"

text \<open>A world where nothing has happened yet and the two package directories exist.\<close>

definition sampleWorld :: World where
  "sampleWorld = \<lparr>bus = [], children = [], directories = {''/r/pkg'', ''/r/api''}\<rparr>"

text \<open>A matcher that matches no file.\<close>

definition matchNothing :: matcher where
  "matchNothing pat pkgPath staged root = Inr []"

text \<open>
  A path resolution for the examples: repeated and trailing slashes do not count.
\<close>

definition collapseSlashes :: "string \<Rightarrow> string" where
  "collapseSlashes path =
     concat (map (\<lambda>part. CHR ''/'' # part) (filter (\<lambda>part. part \<noteq> []) (js_split CHR ''/'' path)))"

text \<open>
  Two packages with an ignore file: the first lacks the line for the local hooks, the
  second has it.
\<close>

definition sampleFiles :: FileSystem where
  "sampleFiles = \<lparr>files = [''/r/a/.gitignore'' \<mapsto> ''node_modules\<newline>'',
                            ''/r/b/.gitignore'' \<mapsto> ''.hooks/*.local.json\<newline>''],
                  dirs = {''/r'', ''/r/a'', ''/r/b''},
                  denied = {},
                  realpath = collapseSlashes,
                  logged = []\<rparr>"

section \<open>Properties of the built command\<close>

lemma startsWith_take: "startsWith s pat = (take (length pat) s = pat)"
  by (induction s pat rule: startsWith.induct) auto

lemma js_split_not_Nil: "js_split sep s \<noteq> []"
  by (induction s) (auto split: list.splits)

lemma tokenize_js_split:
  "tokenize (\<lambda>c. c = sep) cur s
     = filter (\<lambda>arg. arg \<noteq> []) ((cur @ hd (js_split sep s)) # tl (js_split sep s))"
proof (induction s arbitrary: cur)
  case Nil
  show ?case by simp
next
  case (Cons c cs)
  obtain t ts where sp: "js_split sep cs = t # ts"
    using js_split_not_Nil [of sep cs] by (cases "js_split sep cs") auto
  show ?case
    using Cons.IH [of "[]"] Cons.IH [of "cur @ [c]"] by (simp add: sp)
qed

lemma filter_js_split_tokenize:
  "filter (\<lambda>arg. arg \<noteq> []) (js_split sep s) = tokenize (\<lambda>c. c = sep) [] s"
  using js_split_not_Nil [of sep s] by (simp add: tokenize_js_split)

lemma getSubstitution_plain:
  "CHR ''$'' \<notin> set repl \<Longrightarrow> getSubstitution matched preceding following repl = repl"
  by (induction matched preceding following repl rule: getSubstitution.induct) auto

lemma set_join: "set (join sep xs) \<subseteq> set sep \<union> \<Union> (set ` set xs)"
  by (induction sep xs rule: join.induct) auto

lemma set_tokenize: "\<Union> (set ` set (tokenize isSep cur s)) \<subseteq> set cur \<union> set s"
  by (induction isSep cur s rule: tokenize.induct) (auto split: if_splits)

lemma quoted_no_dollar:
  "CHR ''$'' \<notin> set hookArgs \<Longrightarrow>
   CHR ''$'' \<notin> set ([CHR 0x22] @ join '' '' (tokenize (\<lambda>c. c = CHR '' '') [] hookArgs) @ [CHR 0x22])"
  using set_join [of "'' ''" "tokenize (\<lambda>c. c = CHR '' '') [] hookArgs"]
    set_tokenize [of "\<lambda>c. c = CHR '' ''" "[]" hookArgs]
  by auto

lemma take_prefix: "n \<le> length xs \<Longrightarrow> take n (xs @ ys) = take n xs"
  by simp

lemma indexOf_first:
  assumes "pat \<noteq> []" and "\<not> includes_str (pre @ butlast pat) pat"
  shows "indexOf (pre @ pat @ post) pat = Some (length pre)"
  using assms(2)
proof (induction pre)
  case Nil
  have "startsWith (pat @ post) pat" by (simp add: startsWith_take)
  then show ?case using assms(1) by (cases pat) simp_all
next
  case (Cons c cs)
  from Cons.prems have ns: "\<not> startsWith (c # cs @ butlast pat) pat"
    and ni: "\<not> includes_str (cs @ butlast pat) pat"
    by (auto simp: includes_str_def split: if_splits)
  have eq: "c # cs @ pat @ post = (c # cs @ butlast pat) @ (last pat # post)"
    using assms(1) by simp
  have le: "length pat \<le> length (c # cs @ butlast pat)" by simp
  have tk: "take (length pat) (c # cs @ pat @ post) = take (length pat) (c # cs @ butlast pat)"
    unfolding eq using le by (rule take_prefix)
  have "\<not> startsWith (c # cs @ pat @ post) pat"
    unfolding startsWith_take tk using ns unfolding startsWith_take .
  with Cons.IH [OF ni] show ?case by simp
qed

lemma replace_first:
  assumes "pat \<noteq> []" and "\<not> includes_str (pre @ butlast pat) pat"
  shows "replace (pre @ pat @ post) pat repl = pre @ getSubstitution pat pre post repl @ post"
  by (simp add: replace_def indexOf_first [OF assms])

lemma startsWith_length: "startsWith s pat \<Longrightarrow> length pat \<le> length s"
  by (induction s pat rule: startsWith.induct) simp_all

lemma startsWith_set: "startsWith s pat \<Longrightarrow> set pat \<subseteq> set s"
  by (induction s pat rule: startsWith.induct) auto

lemma startsWith_last: "startsWith s pat \<Longrightarrow> pat \<noteq> [] \<Longrightarrow> last pat \<in> set s"
  using startsWith_set [of s pat] last_in_set [of pat] by auto

lemma indexOf_bound: "indexOf s pat = Some i \<Longrightarrow> i + length pat \<le> length s"
proof (induction s arbitrary: i)
  case Nil
  then show ?case by (simp split: if_splits)
next
  case (Cons c cs)
  then show ?case
    using startsWith_length [of "c # cs" pat] by (auto split: if_splits)
qed

lemma indexOf_skip_prefix:
  assumes "pat \<noteq> []" and "hd pat \<notin> set pre"
  shows "indexOf (pre @ s) pat = map_option (\<lambda>i. length pre + i) (indexOf s pat)"
  using assms(2)
proof (induction pre)
  case Nil
  show ?case by (simp add: option.map_ident)
next
  case (Cons a as)
  obtain p ps where pat: "pat = p # ps" using assms(1) by (cases pat) auto
  from Cons.prems pat have "a \<noteq> p" and "hd pat \<notin> set as" by auto
  with Cons.IH show ?case by (simp add: pat option.map_comp comp_def)
qed

lemma startsWith_suffix_irrelevant:
  "pat \<noteq> [] \<Longrightarrow> last pat \<notin> set post \<Longrightarrow> startsWith (s @ post) pat = startsWith s pat"
proof (induction s pat rule: startsWith.induct)
  case (1 s)
  then show ?case by simp
next
  case (2 p ps)
  then show ?case using startsWith_last [of post "p # ps"] by auto
next
  case (3 c cs p ps)
  then show ?case by (cases "ps = []") simp_all
qed

lemma indexOf_suffix_irrelevant:
  assumes "pat \<noteq> []" and "last pat \<notin> set post"
  shows "indexOf (s @ post) pat = indexOf s pat"
proof (induction s)
  case Nil
  have "indexOf post pat = None"
    using assms(2)
  proof (induction post)
    case Nil
    then show ?case using assms(1) by simp
  next
    case (Cons b bs)
    then show ?case
      using startsWith_last [of "b # bs" pat] assms(1) by auto
  qed
  then show ?case using assms(1) by simp
next
  case (Cons c cs)
  then show ?case
    using startsWith_suffix_irrelevant [OF assms, of "c # cs"] by simp
qed

lemma replace_inside:
  assumes pat: "pat \<noteq> []" and pre: "hd pat \<notin> set pre" and post: "last pat \<notin> set post"
    and repl: "CHR ''$'' \<notin> set repl"
  shows "replace (pre @ s @ post) pat repl = pre @ replace s pat repl @ post"
proof (cases "indexOf s pat")
  case None
  then show ?thesis
    by (simp add: replace_def indexOf_skip_prefix [OF pat pre] indexOf_suffix_irrelevant [OF pat post])
next
  case (Some i)
  from indexOf_bound [OF Some] have le: "i + length pat \<le> length s" .
  then have "i \<le> length s" by simp
  with le Some show ?thesis
    by (simp add: replace_def indexOf_skip_prefix [OF pat pre] indexOf_suffix_irrelevant [OF pat post]
          getSubstitution_plain [OF repl] add.assoc)
qed

lemma computeExecutedCommand_replace:
  "computeExecutedCommand this = replace (wrappedCommand this) ''{args}'' (quotedArguments this)"
  by (simp add: computeExecutedCommand_def Let_def)

lemma quotedArguments_plain:
  assumes "CHR ''$'' \<notin> set (hookArguments (options this))"
  shows "CHR ''$'' \<notin> set (quotedArguments this)"
  using quoted_no_dollar [OF assms] by (simp add: filter_js_split_tokenize)

text \<open>
  C3. The claim, as the specification words it, fails on a tab: the specification's
  tokens of \<^verbatim>\<open>a<TAB>b\<close> rejoin to \<^verbatim>\<open>a b\<close>, while the built command keeps the tab
  and does not contain \<^verbatim>\<open>a b\<close>.
\<close>

theorem whitespace_split_counterexample:
  "spec_arguments (''a'' @ [CHR 0x09] @ ''b'') = ''a b''
   \<and> computeExecutedCommand
        \<lparr>step = plainStep, options = pkgOptions\<lparr>hookArguments := ''a'' @ [CHR 0x09] @ ''b''\<rparr>,
         skipped = False\<rparr>
       = ''echo '' @ [CHR 0x22] @ ''a'' @ [CHR 0x09] @ ''b'' @ [CHR 0x22]
   \<and> \<not> includes_str
          (computeExecutedCommand
             \<lparr>step = plainStep, options = pkgOptions\<lparr>hookArguments := ''a'' @ [CHR 0x09] @ ''b''\<rparr>,
              skipped = False\<rparr>)
          (spec_arguments (''a'' @ [CHR 0x09] @ ''b''))"
  by (simp add: spec_arguments_def isWhitespace_def computeExecutedCommand_def replace_def
        plainStep_def pkgOptions_def includes_str_def truthy_def)

text \<open>
  C3, as the code has it. The hook arguments are cut at the space character only; the
  non-empty pieces are rejoined with single spaces and put between double quotes.
  For hook arguments without a dollar sign (which \<^verbatim>\<open>replace\<close> reads as a pattern):
  a command without the placeholder \<^verbatim>\<open>{args}\<close> is built unchanged, and in a command
  with the placeholder the quoted arguments take the place of its first occurrence,
  the text before and after it staying as it is.
\<close>

theorem arguments_split_on_spaces:
  assumes "CHR ''$'' \<notin> set (hookArguments (options this))"
  shows "(\<not> includes_str (wrappedCommand this) ''{args}''
            \<longrightarrow> computeExecutedCommand this = wrappedCommand this)
       \<and> (wrappedCommand this = pre @ ''{args}'' @ post \<and> \<not> includes_str (pre @ ''{args'') ''{args}''
            \<longrightarrow> computeExecutedCommand this
                  = pre @ [CHR 0x22]
                    @ join '' '' (tokenize (\<lambda>c. c = CHR '' '') [] (hookArguments (options this)))
                    @ [CHR 0x22] @ post)"
proof (intro conjI impI)
  assume "\<not> includes_str (wrappedCommand this) ''{args}''"
  then show "computeExecutedCommand this = wrappedCommand this"
    unfolding computeExecutedCommand_replace by (simp add: replace_def includes_str_def)
next
  assume a: "wrappedCommand this = pre @ ''{args}'' @ post \<and> \<not> includes_str (pre @ ''{args'') ''{args}''"
  then have first: "\<not> includes_str (pre @ butlast ''{args}'') ''{args}''" by simp
  have "replace (pre @ ''{args}'' @ post) ''{args}'' (quotedArguments this)
          = pre @ quotedArguments this @ post"
    using replace_first [OF _ first, of post "quotedArguments this"]
      getSubstitution_plain [OF quotedArguments_plain [OF assms]]
    by simp
  then show "computeExecutedCommand this
                  = pre @ [CHR 0x22]
                    @ join '' '' (tokenize (\<lambda>c. c = CHR '' '') [] (hookArguments (options this)))
                    @ [CHR 0x22] @ post"
    unfolding computeExecutedCommand_replace using a by (simp add: filter_js_split_tokenize)
qed

theorem arguments_split_on_spaces_witness:
  "CHR ''$'' \<notin> set (hookArguments (options \<lparr>step = plainStep, options = pkgOptions, skipped = False\<rparr>))
   \<and> command plainStep = ''echo '' @ ''{args}'' @ []
   \<and> \<not> includes_str (''echo '' @ ''{args'') ''{args}''
   \<and> computeExecutedCommand \<lparr>step = plainStep, options = pkgOptions, skipped = False\<rparr>
       = ''echo '' @ [CHR 0x22] @ ''a b'' @ [CHR 0x22]"
  using arguments_split_on_spaces [of "\<lparr>step = plainStep, options = pkgOptions, skipped = False\<rparr>" "''echo ''" "[]"]
  by (simp add: plainStep_def pkgOptions_def includes_str_def truthy_def)

text \<open>A dollar pattern in the hook arguments is expanded: \<^verbatim>\<open>$&\<close> gives back the placeholder.\<close>

lemma dollar_pattern_example:
  "computeExecutedCommand
     \<lparr>step = plainStep, options = pkgOptions\<lparr>hookArguments := ''$&''\<rparr>, skipped = False\<rparr>
   = ''echo '' @ [CHR 0x22] @ ''{args}'' @ [CHR 0x22]"
  by (simp add: computeExecutedCommand_def replace_def plainStep_def pkgOptions_def truthy_def)

text \<open>
  C6. For a Python step whose \<^verbatim>\<open>venvActivate\<close> is set (defined and not the empty
  string, which is what the condition of the source tests), the arguments are
  interpolated into \<^verbatim>\<open>source <venvActivate> && <command> && deactivate\<close>; when the
  activation path has no brace and the hook arguments no dollar sign, the built command
  is the interpolated command between \<^verbatim>\<open>source <venvActivate> && \<close> and
  \<^verbatim>\<open> && deactivate\<close>. For every other step the arguments are interpolated into the
  command as it is.
\<close>

theorem venv_wraps_command:
  "(type (options this) = Some ''python'' \<and> venvActivate (options this) = Some v \<and> v \<noteq> [] \<longrightarrow>
      computeExecutedCommand this
        = replace (''source '' @ v @ '' && '' @ command (step this) @ '' && deactivate'')
            ''{args}'' (quotedArguments this)
      \<and> (CHR ''{'' \<notin> set v \<and> CHR ''$'' \<notin> set (hookArguments (options this)) \<longrightarrow>
           computeExecutedCommand this
             = ''source '' @ v @ '' && ''
               @ replace (command (step this)) ''{args}'' (quotedArguments this)
               @ '' && deactivate''))
   \<and> (type (options this) \<noteq> Some ''python'' \<or> venvActivate (options this) = None
        \<or> venvActivate (options this) = Some [] \<longrightarrow>
      computeExecutedCommand this = replace (command (step this)) ''{args}'' (quotedArguments this))"
proof (intro conjI impI)
  assume a: "type (options this) = Some ''python'' \<and> venvActivate (options this) = Some v \<and> v \<noteq> []"
  then show wrapped: "computeExecutedCommand this
        = replace (''source '' @ v @ '' && '' @ command (step this) @ '' && deactivate'')
            ''{args}'' (quotedArguments this)"
    by (simp add: computeExecutedCommand_def Let_def truthy_def templateString_def)
  assume b: "CHR ''{'' \<notin> set v \<and> CHR ''$'' \<notin> set (hookArguments (options this))"
  then have plain: "CHR ''$'' \<notin> set (quotedArguments this)"
    using quotedArguments_plain by blast
  have "replace ((''source '' @ v @ '' && '') @ command (step this) @ '' && deactivate'')
            ''{args}'' (quotedArguments this)
        = (''source '' @ v @ '' && '') @ replace (command (step this)) ''{args}'' (quotedArguments this)
          @ '' && deactivate''"
    using b by (intro replace_inside [OF _ _ _ plain]) simp_all
  then show "computeExecutedCommand this
             = ''source '' @ v @ '' && ''
               @ replace (command (step this)) ''{args}'' (quotedArguments this)
               @ '' && deactivate''"
    unfolding wrapped by simp
next
  assume "type (options this) \<noteq> Some ''python'' \<or> venvActivate (options this) = None
        \<or> venvActivate (options this) = Some []"
  then show "computeExecutedCommand this = replace (command (step this)) ''{args}'' (quotedArguments this)"
    by (auto simp: computeExecutedCommand_def Let_def truthy_def templateString_def)
qed

theorem venv_wraps_command_witness:
  "type pythonOptions = Some ''python''
   \<and> venvActivate pythonOptions = Some ''/r/api/venv/bin/activate''
   \<and> computeExecutedCommand \<lparr>step = plainStep, options = pythonOptions, skipped = False\<rparr>
       = ''source /r/api/venv/bin/activate && echo '' @ [CHR 0x22] @ ''a b'' @ [CHR 0x22]
         @ '' && deactivate''
   \<and> computeExecutedCommand \<lparr>step = plainStep, options = pkgOptions, skipped = False\<rparr>
       = ''echo '' @ [CHR 0x22] @ ''a b'' @ [CHR 0x22]"
  using venv_wraps_command [of "\<lparr>step = plainStep, options = pythonOptions, skipped = False\<rparr>"
      "''/r/api/venv/bin/activate''"]
    venv_wraps_command [of "\<lparr>step = plainStep, options = pkgOptions, skipped = False\<rparr>" "[]"]
  by (simp add: pythonOptions_def pkgOptions_def plainStep_def replace_def)

section \<open>Properties of a run\<close>

lemma exec_spawnable:
  "spawnable cmd cwd w \<Longrightarrow>
   exec cmd cwd w = Inr (Spawned, w\<lparr>children := children w @ [(cmd, cwd)]\<rparr>)"
  by (simp add: spawnable_def exec_def)

lemma exec_not_spawnable:
  "\<not> spawnable cmd cwd w \<Longrightarrow>
   exec cmd cwd w = Inr (SpawnFailed, w) \<or> (\<exists>e. exec cmd cwd w = Inl e)"
  by (auto simp: spawnable_def exec_def)

lemma spawnable_emitStepStatus:
  "spawnable cmd cwd (emitStepStatus this s w) = spawnable cmd cwd w"
  by (simp add: spawnable_def emitStepStatus_def)

lemma run_spawned:
  assumes "\<not> skipped this"
    and "spawnable (computeExecutedCommand this) (packagePath (options this)) w"
  shows "run this w =
     (\<lparr>out = [], error = [], promise = Pending, cp = Some Spawned\<rparr>,
      w\<lparr>bus := bus w @ [\<lparr>evPackageName = packageName (options this),
                          stepName = name (step this), status = RUNNING\<rparr>],
        children := children w @ [(computeExecutedCommand this, packagePath (options this))]\<rparr>)"
proof -
  have "exec (computeExecutedCommand this) (packagePath (options this)) (emitStepStatus this RUNNING w)
        = Inr (Spawned, (emitStepStatus this RUNNING w)
                 \<lparr>children := children (emitStepStatus this RUNNING w)
                    @ [(computeExecutedCommand this, packagePath (options this))]\<rparr>)"
    using assms(2) by (intro exec_spawnable) (simp add: spawnable_emitStepStatus)
  with assms(1) show ?thesis
    by (simp add: run_def Let_def emitStepStatus_def)
qed

lemma run_not_spawned:
  assumes "\<not> skipped this"
    and "\<not> spawnable (computeExecutedCommand this) (packagePath (options this)) w"
  shows "cp (fst (run this w)) \<noteq> Some Spawned
       \<and> promise (fst (run this w)) \<noteq> Resolved v
       \<and> snd (run this w) = emitStepStatus this RUNNING w"
proof -
  have "\<not> spawnable (computeExecutedCommand this) (packagePath (options this))
          (emitStepStatus this RUNNING w)"
    using assms(2) by (simp add: spawnable_emitStepStatus)
  from exec_not_spawnable [OF this] assms(1) show ?thesis
    by (auto simp: run_def Let_def)
qed

lemma run_skipped:
  "skipped this \<Longrightarrow>
   run this w =
     (\<lparr>out = [], error = [], promise = Resolved None, cp = None\<rparr>,
      w\<lparr>bus := bus w @ [\<lparr>evPackageName = packageName (options this),
                          stepName = name (step this), status = RUNNING\<rparr>,
                         \<lparr>evPackageName = packageName (options this),
                          stepName = name (step this), status = SKIPPED\<rparr>]\<rparr>)"
  by (simp add: run_def emitStepStatus_def Let_def)

text \<open>Data events only fill the buffers.\<close>

lemma listeners_data:
  "\<forall>e \<in> set es. \<not> isExit e \<Longrightarrow>
   foldl (listener bold this) (c, w) es =
     (c\<lparr>out := out c @ buffered (stdoutChunks es),
        error := error c @ buffered (stderrChunks es)\<rparr>, w)"
proof (induction es arbitrary: c)
  case Nil
  show ?case by (simp add: buffered_def)
next
  case (Cons e es)
  then show ?case by (cases e) (simp_all add: buffered_def)
qed

text \<open>The exit event settles the promise with the buffers as they are at that moment.\<close>

lemma listeners_exit:
  assumes pre: "\<forall>e \<in> set pre. \<not> isExit e" and post: "\<forall>e \<in> set post. \<not> isExit e"
    and pend: "promise c = Pending"
  shows "foldl (listener bold this) (c, w) (pre @ Exit code # post) =
     (c\<lparr>out := out c @ buffered (stdoutChunks pre) @ buffered (stdoutChunks post),
        error := error c @ buffered (stderrChunks pre) @ buffered (stderrChunks post),
        promise := Resolved (if code = Some 0 then None
                     else Some (step this,
                       Error (error c @ buffered (stderrChunks pre)
                              @ bold ''\<newline>stdout :\<newline>''
                              @ out c @ buffered (stdoutChunks pre))))\<rparr>,
      emitStepStatus this (if code = Some 0 then SUCCESS else FAILURE) w)"
  using pend by (simp add: listeners_data [OF pre] listeners_data [OF post] resolve_def)

lemma listeners_never_reject:
  "promise c \<noteq> Rejected x \<Longrightarrow> promise (fst (foldl (listener bold this) (c, w) es)) \<noteq> Rejected x"
proof (induction es arbitrary: c w)
  case Nil
  then show ?case by simp
next
  case (Cons e es)
  then show ?case
    by (cases e) (simp_all add: resolve_def split: promise.splits)
qed

lemma run_with_spawned:
  assumes "\<not> skipped this"
    and "spawnable (computeExecutedCommand this) (packagePath (options this)) w"
  shows "run_with bold this events w = foldl (listener bold this) (run this w) events"
  by (simp add: run_with_def run_spawned [OF assms])

lemma run_with_exit:
  assumes ns: "\<not> skipped this"
    and sp: "spawnable (computeExecutedCommand this) (packagePath (options this)) w"
    and pre: "\<forall>e \<in> set pre. \<not> isExit e" and post: "\<forall>e \<in> set post. \<not> isExit e"
  shows "run_with bold this (pre @ Exit code # post) w =
     (\<lparr>out = buffered (stdoutChunks pre) @ buffered (stdoutChunks post),
       error = buffered (stderrChunks pre) @ buffered (stderrChunks post),
       promise = Resolved (if code = Some 0 then None
                     else Some (step this,
                       Error (buffered (stderrChunks pre)
                              @ bold ''\<newline>stdout :\<newline>''
                              @ buffered (stdoutChunks pre)))),
       cp = Some Spawned\<rparr>,
      w\<lparr>bus := bus w @ [\<lparr>evPackageName = packageName (options this),
                          stepName = name (step this), status = RUNNING\<rparr>,
                         \<lparr>evPackageName = packageName (options this),
                          stepName = name (step this),
                          status = (if code = Some 0 then SUCCESS else FAILURE)\<rparr>],
        children := children w @ [(computeExecutedCommand this, packagePath (options this))]\<rparr>)"
  unfolding run_with_spawned [OF ns sp] run_spawned [OF ns sp]
  by (subst listeners_exit [OF pre post]) (simp_all add: emitStepStatus_def)

lemma run_with_no_exit:
  assumes ns: "\<not> skipped this"
    and sp: "spawnable (computeExecutedCommand this) (packagePath (options this)) w"
    and es: "\<forall>e \<in> set es. \<not> isExit e"
  shows "run_with bold this es w =
     (\<lparr>out = buffered (stdoutChunks es), error = buffered (stderrChunks es), promise = Pending,
       cp = Some Spawned\<rparr>,
      w\<lparr>bus := bus w @ [\<lparr>evPackageName = packageName (options this),
                          stepName = name (step this), status = RUNNING\<rparr>],
        children := children w @ [(computeExecutedCommand this, packagePath (options this))]\<rparr>)"
  unfolding run_with_spawned [OF ns sp] run_spawned [OF ns sp]
  by (simp add: listeners_data [OF es])

lemma run_with_not_spawned:
  assumes "\<not> skipped this"
    and "\<not> spawnable (computeExecutedCommand this) (packagePath (options this)) w"
  shows "run_with bold this events w = run this w"
  using run_not_spawned [OF assms] by (simp add: run_with_def)

text \<open>
  C1. A step that is not skipped and whose child process was launched and exits with a
  code: with code 0 the statuses published are Running then Success and the promise
  resolves with \<^verbatim>\<open>null\<close>; with any other code they are Running then Failure and the
  promise resolves with the step and an error whose message is the standard-error
  buffer, the (bold) separator \<^verbatim>\<open>\nstdout :\n\<close> and the standard-output buffer, both as
  filled when the process exits. Whatever the launched child process does, the promise
  is never rejected.
\<close>

theorem run_exit_code_outcome:
  assumes "\<not> skipped this"
    and "spawnable (computeExecutedCommand this) (packagePath (options this)) w"
    and "\<forall>e \<in> set pre. \<not> isExit e" and "\<forall>e \<in> set post. \<not> isExit e"
  shows "published w (snd (run_with bold this (pre @ Exit (Some code) # post) w))
           = [RUNNING, if code = 0 then SUCCESS else FAILURE]
       \<and> promise (fst (run_with bold this (pre @ Exit (Some code) # post) w))
           = Resolved (if code = 0 then None
                       else Some (step this,
                              Error (buffered (stderrChunks pre)
                                     @ bold ''\<newline>stdout :\<newline>''
                                     @ buffered (stdoutChunks pre))))
       \<and> promise (fst (run_with bold this events w)) \<noteq> Rejected x"
proof -
  have "promise (fst (run_with bold this events w)) \<noteq> Rejected x"
    unfolding run_with_spawned [OF assms(1,2)] run_spawned [OF assms(1,2)]
    by (rule listeners_never_reject) simp
  then show ?thesis
    by (simp add: run_with_exit [OF assms] published_def)
qed

theorem run_exit_code_outcome_witness:
  "\<not> skipped \<lparr>step = plainStep, options = pkgOptions, skipped = False\<rparr>
   \<and> spawnable (computeExecutedCommand \<lparr>step = plainStep, options = pkgOptions, skipped = False\<rparr>)
        (packagePath (options \<lparr>step = plainStep, options = pkgOptions, skipped = False\<rparr>)) sampleWorld
   \<and> published sampleWorld (snd (run_with id \<lparr>step = plainStep, options = pkgOptions, skipped = False\<rparr>
        ([StdoutData ''hi'', StderrData ''boom''] @ Exit (Some 1) # [StdoutData ''late'']) sampleWorld))
        = [RUNNING, FAILURE]
   \<and> promise (fst (run_with id \<lparr>step = plainStep, options = pkgOptions, skipped = False\<rparr>
        ([StdoutData ''hi'', StderrData ''boom''] @ Exit (Some 1) # [StdoutData ''late'']) sampleWorld))
        = Resolved (Some (plainStep, Error ''\<newline>boom\<newline>stdout :\<newline>\<newline>hi''))"
proof -
  have sp: "spawnable (computeExecutedCommand \<lparr>step = plainStep, options = pkgOptions, skipped = False\<rparr>)
        (packagePath (options \<lparr>step = plainStep, options = pkgOptions, skipped = False\<rparr>)) sampleWorld"
    by (simp add: spawnable_def computeExecutedCommand_def replace_def plainStep_def pkgOptions_def
          truthy_def sampleWorld_def)
  show ?thesis
    using sp run_exit_code_outcome [of "\<lparr>step = plainStep, options = pkgOptions, skipped = False\<rparr>"
      sampleWorld "[StdoutData ''hi'', StderrData ''boom'']" "[StdoutData ''late'']" id 1 "[]", OF _ sp]
    by (simp add: buffered_def)
qed

lemma one_exit_split:
  "length (filter isExit es) = 1 \<Longrightarrow>
   \<exists>pre code post. es = pre @ Exit code # post
      \<and> (\<forall>e \<in> set pre. \<not> isExit e) \<and> (\<forall>e \<in> set post. \<not> isExit e)"
proof (induction es)
  case Nil
  then show ?case by simp
next
  case (Cons e es)
  show ?case
  proof (cases "isExit e")
    case True
    then obtain code where e: "e = Exit code" by (cases e) simp_all
    from True Cons.prems have "filter isExit es = []" by simp
    then have "\<forall>x \<in> set es. \<not> isExit x" by (simp add: filter_empty_conv)
    then have "e # es = [] @ Exit code # es \<and> (\<forall>x \<in> set []. \<not> isExit x) \<and> (\<forall>x \<in> set es. \<not> isExit x)"
      using e by simp
    then show ?thesis by blast
  next
    case False
    with Cons.prems have "length (filter isExit es) = 1" by simp
    from Cons.IH [OF this] obtain pre code post where
      "es = pre @ Exit code # post" "\<forall>x \<in> set pre. \<not> isExit x" "\<forall>x \<in> set post. \<not> isExit x"
      by blast
    with False have "e # es = (e # pre) @ Exit code # post \<and> (\<forall>x \<in> set (e # pre). \<not> isExit x)
        \<and> (\<forall>x \<in> set post. \<not> isExit x)" by simp
    then show ?thesis by blast
  qed
qed

text \<open>
  C2. The claim fails on the code: \<^verbatim>\<open>run\<close> keeps no record of an earlier call, and
  two calls on the same executor, which is not skipped, launch two child processes.
\<close>

theorem second_run_launches_again_counterexample:
  "length (children (snd (run \<lparr>step = plainStep, options = pkgOptions, skipped = False\<rparr> sampleWorld))) = 1
   \<and> length (children (snd (run \<lparr>step = plainStep, options = pkgOptions, skipped = False\<rparr>
        (snd (run \<lparr>step = plainStep, options = pkgOptions, skipped = False\<rparr> sampleWorld))))) = 2"
  by (simp add: run_def exec_def emitStepStatus_def computeExecutedCommand_def replace_def
        plainStep_def pkgOptions_def truthy_def sampleWorld_def)

lemma run_launched:
  "launched w (snd (run this w))
     = (if \<not> skipped this \<and> spawnable (computeExecutedCommand this) (packagePath (options this)) w
        then [(computeExecutedCommand this, packagePath (options this))] else [])"
proof (cases "skipped this")
  case True
  then show ?thesis by (simp add: run_skipped launched_def)
next
  case ns: False
  show ?thesis
  proof (cases "spawnable (computeExecutedCommand this) (packagePath (options this)) w")
    case True
    with ns show ?thesis by (simp add: run_spawned launched_def)
  next
    case False
    with ns run_not_spawned [OF ns False] show ?thesis
      by (simp add: launched_def emitStepStatus_def)
  qed
qed

lemma run_world:
  "directories (snd (run this w)) = directories w
   \<and> (\<exists>cs. children (snd (run this w)) = children w @ cs)"
proof (cases "skipped this")
  case True
  then show ?thesis by (simp add: run_skipped)
next
  case ns: False
  show ?thesis
  proof (cases "spawnable (computeExecutedCommand this) (packagePath (options this)) w")
    case True
    with ns show ?thesis by (simp add: run_spawned)
  next
    case False
    with ns run_not_spawned [OF ns False] show ?thesis
      by (simp add: emitStepStatus_def)
  qed
qed

text \<open>
  C2, as the code has it. A call of \<^verbatim>\<open>run\<close> launches at most one child process, and
  it launches one exactly when the executor is not skipped and \<^verbatim>\<open>exec\<close> can launch the
  built command in the package directory. \<^verbatim>\<open>run\<close> does not guard against a second
  call: whenever the first call launched a child process, a second call on the same
  executor launches the same command again.
\<close>

theorem run_launches_on_every_call:
  "launched w (snd (run this w))
     = (if \<not> skipped this \<and> spawnable (computeExecutedCommand this) (packagePath (options this)) w
        then [(computeExecutedCommand this, packagePath (options this))] else [])
   \<and> launched w (snd (run this (snd (run this w))))
     = (if \<not> skipped this \<and> spawnable (computeExecutedCommand this) (packagePath (options this)) w
        then [(computeExecutedCommand this, packagePath (options this)),
              (computeExecutedCommand this, packagePath (options this))] else [])"
proof -
  let ?w1 = "snd (run this w)"
  have sp: "spawnable (computeExecutedCommand this) (packagePath (options this)) ?w1
            = spawnable (computeExecutedCommand this) (packagePath (options this)) w"
    using run_world [of this w] by (simp add: spawnable_def)
  obtain cs where cs: "children ?w1 = children w @ cs" using run_world [of this w] by blast
  have first: "launched w ?w1
     = (if \<not> skipped this \<and> spawnable (computeExecutedCommand this) (packagePath (options this)) w
        then [(computeExecutedCommand this, packagePath (options this))] else [])"
    by (rule run_launched)
  have second: "launched ?w1 (snd (run this ?w1))
     = (if \<not> skipped this \<and> spawnable (computeExecutedCommand this) (packagePath (options this)) w
        then [(computeExecutedCommand this, packagePath (options this))] else [])"
    unfolding run_launched sp ..
  obtain ds where ds: "children (snd (run this ?w1)) = children ?w1 @ ds"
    using run_world [of this ?w1] by blast
  have "launched w (snd (run this ?w1)) = launched w ?w1 @ launched ?w1 (snd (run this ?w1))"
    by (simp add: launched_def cs ds)
  with first second show ?thesis by simp
qed

theorem run_launches_on_every_call_witness:
  "launched sampleWorld (snd (run \<lparr>step = plainStep, options = pkgOptions, skipped = False\<rparr>
        (snd (run \<lparr>step = plainStep, options = pkgOptions, skipped = False\<rparr> sampleWorld))))
     = [(''echo '' @ [CHR 0x22] @ ''a b'' @ [CHR 0x22], ''/r/pkg''),
        (''echo '' @ [CHR 0x22] @ ''a b'' @ [CHR 0x22], ''/r/pkg'')]"
  using run_launches_on_every_call [of sampleWorld "\<lparr>step = plainStep, options = pkgOptions, skipped = False\<rparr>"]
  by (simp add: spawnable_def computeExecutedCommand_def replace_def plainStep_def pkgOptions_def
        truthy_def sampleWorld_def)

text \<open>
  C5. The run of a skipped executor publishes Running then Skipped, resolves with
  \<^verbatim>\<open>null\<close> and launches no child process.
\<close>

theorem skipped_run_launches_nothing:
  assumes "skipped this"
  shows "published w (snd (run_with bold this events w)) = [RUNNING, SKIPPED]
       \<and> promise (fst (run_with bold this events w)) = Resolved None
       \<and> children (snd (run_with bold this events w)) = children w"
  using assms by (simp add: run_with_def run_skipped published_def)

theorem skipped_run_launches_nothing_witness:
  "skipped \<lparr>step = goStep, options = pkgOptions, skipped = True\<rparr>
   \<and> published sampleWorld (snd (run_with id \<lparr>step = goStep, options = pkgOptions, skipped = True\<rparr> [] sampleWorld))
       = [RUNNING, SKIPPED]
   \<and> promise (fst (run_with id \<lparr>step = goStep, options = pkgOptions, skipped = True\<rparr> [] sampleWorld))
       = Resolved None
   \<and> children (snd (run_with id \<lparr>step = goStep, options = pkgOptions, skipped = True\<rparr> [] sampleWorld)) = []"
  using skipped_run_launches_nothing [of "\<lparr>step = goStep, options = pkgOptions, skipped = True\<rparr>" sampleWorld id "[]"]
  by (simp add: sampleWorld_def)

text \<open>
  C7. The claim fails on the code when \<^verbatim>\<open>exec\<close> throws: for a step with an empty
  command the promise is rejected, Running is the only status published, and no
  listener is left that could publish another.
\<close>

theorem run_without_terminal_event_counterexample:
  "published sampleWorld
     (snd (run_with id \<lparr>step = plainStep\<lparr>command := []\<rparr>, options = pkgOptions, skipped = False\<rparr>
             [] sampleWorld)) = [RUNNING]
   \<and> promise
       (fst (run_with id \<lparr>step = plainStep\<lparr>command := []\<rparr>, options = pkgOptions, skipped = False\<rparr>
               [] sampleWorld)) = Rejected (ERR_INVALID_ARG_VALUE ''file'')"
  by (simp add: run_with_def run_def exec_def emitStepStatus_def computeExecutedCommand_def
        replace_def plainStep_def pkgOptions_def truthy_def sampleWorld_def published_def)

text \<open>
  C7, as the code has it. One call of \<^verbatim>\<open>run\<close>, with a child process that emits
  \<^verbatim>\<open>'exit'\<close> at most once (as a child process does): Running is published first and
  once. Exactly one more status follows it, Skipped, Success or Failure, when the
  executor is skipped, or when \<^verbatim>\<open>exec\<close> launched the child process and the child
  process has exited. No status follows it when \<^verbatim>\<open>exec\<close> throws, when the child
  process cannot be spawned, or when the child process does not exit.
\<close>

theorem run_publishes_running_then_one_terminal:
  assumes "length (filter isExit events) \<le> 1"
  shows "\<exists>ts. published w (snd (run_with bold this events w)) = RUNNING # ts
           \<and> (ts = [] \<or> ts = [SKIPPED] \<or> ts = [SUCCESS] \<or> ts = [FAILURE])
           \<and> (ts \<noteq> []) = (skipped this
                \<or> spawnable (computeExecutedCommand this) (packagePath (options this)) w
                  \<and> filter isExit events \<noteq> [])"
proof (cases "skipped this")
  case True
  then show ?thesis by (simp add: run_with_def run_skipped published_def)
next
  case ns: False
  show ?thesis
  proof (cases "spawnable (computeExecutedCommand this) (packagePath (options this)) w")
    case sp: True
    show ?thesis
    proof (cases "filter isExit events = []")
      case True
      then have "\<forall>e \<in> set events. \<not> isExit e" by (simp add: filter_empty_conv)
      from run_with_no_exit [OF ns sp this] True ns show ?thesis
        by (simp add: published_def)
    next
      case nonempty: False
      then have "length (filter isExit events) \<noteq> 0" by simp
      with assms have "length (filter isExit events) = 1" by linarith
      from one_exit_split [OF this] obtain pre code post where
        es: "events = pre @ Exit code # post"
        and pre: "\<forall>e \<in> set pre. \<not> isExit e" and post: "\<forall>e \<in> set post. \<not> isExit e"
        by blast
      show ?thesis
        unfolding es using sp by (simp add: run_with_exit [OF ns sp pre post] published_def)
    qed
  next
    case nsp: False
    from run_not_spawned [OF ns nsp] have "snd (run this w) = emitStepStatus this RUNNING w"
      by simp
    with ns nsp show ?thesis
      by (simp add: run_with_not_spawned [OF ns nsp] published_def emitStepStatus_def)
  qed
qed

theorem run_publishes_running_then_one_terminal_witness:
  "length (filter isExit [StdoutData ''ok'', Exit (Some 0)]) \<le> 1
   \<and> published sampleWorld (snd (run_with id \<lparr>step = plainStep, options = pkgOptions, skipped = False\<rparr>
        [StdoutData ''ok'', Exit (Some 0)] sampleWorld)) = [RUNNING, SUCCESS]
   \<and> published sampleWorld (snd (run_with id \<lparr>step = plainStep, options = pkgOptions\<lparr>packagePath := ''/r/gone''\<rparr>, skipped = False\<rparr>
        [StdoutData ''ok'', Exit (Some 0)] sampleWorld)) = [RUNNING]"
  using run_publishes_running_then_one_terminal
    [of "[StdoutData ''ok'', Exit (Some 0)]" sampleWorld id "\<lparr>step = plainStep, options = pkgOptions, skipped = False\<rparr>"]
  by (simp add: run_with_def run_def exec_def emitStepStatus_def computeExecutedCommand_def
        replace_def plainStep_def pkgOptions_def truthy_def sampleWorld_def published_def resolve_def)

text \<open>
  C10. A step that is not skipped and whose child process was launched and exits:
  Success is published exactly when the exit code is the number 0. With any other exit
  code, \<^verbatim>\<open>null\<close> (a process killed by a signal) included, Failure is published and the
  promise resolves with the step and the error.
\<close>

theorem only_exit_code_zero_succeeds:
  assumes "\<not> skipped this"
    and "spawnable (computeExecutedCommand this) (packagePath (options this)) w"
    and "\<forall>e \<in> set pre. \<not> isExit e" and "\<forall>e \<in> set post. \<not> isExit e"
  shows "(SUCCESS \<in> set (published w (snd (run_with bold this (pre @ Exit code # post) w)))) = (code = Some 0)
       \<and> (FAILURE \<in> set (published w (snd (run_with bold this (pre @ Exit code # post) w)))) = (code \<noteq> Some 0)
       \<and> (promise (fst (run_with bold this (pre @ Exit code # post) w)) = Resolved None) = (code = Some 0)
       \<and> (promise (fst (run_with bold this (pre @ Exit code # post) w))
            = Resolved (Some (step this,
                Error (buffered (stderrChunks pre) @ bold ''\<newline>stdout :\<newline>''
                       @ buffered (stdoutChunks pre))))) = (code \<noteq> Some 0)"
  by (simp add: run_with_exit [OF assms] published_def)

theorem only_exit_code_zero_succeeds_witness:
  "\<not> skipped \<lparr>step = plainStep, options = pkgOptions, skipped = False\<rparr>
   \<and> spawnable (computeExecutedCommand \<lparr>step = plainStep, options = pkgOptions, skipped = False\<rparr>)
        (packagePath (options \<lparr>step = plainStep, options = pkgOptions, skipped = False\<rparr>)) sampleWorld
   \<and> SUCCESS \<notin> set (published sampleWorld (snd (run_with id \<lparr>step = plainStep, options = pkgOptions, skipped = False\<rparr>
        ([StderrData ''killed''] @ Exit None # []) sampleWorld)))
   \<and> FAILURE \<in> set (published sampleWorld (snd (run_with id \<lparr>step = plainStep, options = pkgOptions, skipped = False\<rparr>
        ([StderrData ''killed''] @ Exit None # []) sampleWorld)))
   \<and> promise (fst (run_with id \<lparr>step = plainStep, options = pkgOptions, skipped = False\<rparr>
        ([StderrData ''killed''] @ Exit None # []) sampleWorld))
       = Resolved (Some (plainStep, Error ''\<newline>killed\<newline>stdout :\<newline>''))"
proof -
  have sp: "spawnable (computeExecutedCommand \<lparr>step = plainStep, options = pkgOptions, skipped = False\<rparr>)
        (packagePath (options \<lparr>step = plainStep, options = pkgOptions, skipped = False\<rparr>)) sampleWorld"
    by (simp add: spawnable_def computeExecutedCommand_def replace_def plainStep_def pkgOptions_def
          truthy_def sampleWorld_def)
  show ?thesis
    using sp only_exit_code_zero_succeeds [of "\<lparr>step = plainStep, options = pkgOptions, skipped = False\<rparr>"
       sampleWorld "[StderrData ''killed'']" "[]" id None, OF _ sp]
    by (simp add: buffered_def)
qed

section \<open>Properties of the construction\<close>

text \<open>
  C4. A step without \<^verbatim>\<open>onlyOn\<close> is never skipped: whatever the staged files, and
  whatever the pattern matcher would answer, \<^verbatim>\<open>isSkipped\<close> returns false and the
  constructor builds an executor whose \<^verbatim>\<open>skipped\<close> flag is false.
\<close>

theorem no_onlyOn_never_skipped:
  assumes "onlyOn st = None"
  shows "isSkipped getMatchedFiles st opts = Inr False
       \<and> constructor getMatchedFiles st opts = Inr \<lparr>step = st, options = opts, skipped = False\<rparr>"
  using assms by (simp add: constructor_def isSkipped_def)

theorem no_onlyOn_never_skipped_witness:
  "onlyOn plainStep = None
   \<and> constructor matchNothing plainStep pkgOptions = Inr \<lparr>step = plainStep, options = pkgOptions, skipped = False\<rparr>
   \<and> constructor matchNothing goStep pkgOptions = Inr \<lparr>step = goStep, options = pkgOptions, skipped = True\<rparr>"
  using no_onlyOn_never_skipped [of plainStep matchNothing pkgOptions]
  by (simp add: plainStep_def goStep_def constructor_def isSkipped_def matchNothing_def)

text \<open>
  C8. With the pattern matcher of the specification: when the step has a (non-empty)
  \<^verbatim>\<open>onlyOn\<close> pattern that is not a valid glob, the constructor throws. No executor is
  built, so nothing can be run, and the error is not the outcome of a run; its message
  names the invalid \<^verbatim>\<open>onlyOn\<close> pattern and carries the matcher's error.
\<close>

theorem invalid_onlyOn_fails_construction:
  assumes "onlyOn st = Some pat" and "pat \<noteq> []" and "\<not> validGlob pat"
  shows "constructor (getMatchedFiles_spec validGlob matches) st opts
         = Inl (Error (''Invalid '' @ [CHR 0x60] @ ''onlyOn'' @ [CHR 0x60] @ '' pattern: ''
                       @ pat @ ''\<newline>'' @ ''PatternError''))"
  using assms by (simp add: constructor_def isSkipped_def getMatchedFiles_spec_def)

theorem invalid_onlyOn_fails_construction_witness:
  "onlyOn (goStep\<lparr>onlyOn := Some ''src/[a-z''\<rparr>) = Some ''src/[a-z''
   \<and> \<not> bracketsClosed False ''src/[a-z''
   \<and> constructor (getMatchedFiles_spec (bracketsClosed False) (\<lambda>pat base root path. True))
        (goStep\<lparr>onlyOn := Some ''src/[a-z''\<rparr>) pkgOptions
       = Inl (Error (''Invalid '' @ [CHR 0x60] @ ''onlyOn'' @ [CHR 0x60]
                     @ '' pattern: src/[a-z\<newline>PatternError''))
   \<and> bracketsClosed False ''*.go''
   \<and> constructor (getMatchedFiles_spec (bracketsClosed False) (\<lambda>pat base root path. True))
        goStep pkgOptions
       = Inr \<lparr>step = goStep, options = pkgOptions, skipped = False\<rparr>"
  using invalid_onlyOn_fails_construction [of "goStep\<lparr>onlyOn := Some ''src/[a-z''\<rparr>" "''src/[a-z''"
      "bracketsClosed False" "\<lambda>pat base root path. True" pkgOptions]
  by (simp add: goStep_def pkgOptions_def constructor_def isSkipped_def getMatchedFiles_spec_def)

section \<open>Properties of the ignore files\<close>

lemma startsWith_append: "startsWith s pat \<Longrightarrow> startsWith (s @ t) pat"
  by (induction s pat rule: startsWith.induct) simp_all

lemma includes_str_append: "includes_str s pat \<Longrightarrow> includes_str (s @ t) pat"
  unfolding includes_str_def
proof (induction s)
  case Nil
  then show ?case by (cases t) (simp_all split: if_splits)
next
  case (Cons c cs)
  then show ?case
    using startsWith_append [of "c # cs" pat t]
    by (auto split: if_splits)
qed

lemma logger_keeps:
  "realpath (logger level msg fs) = realpath fs"
  "files (logger level msg fs) = files fs"
  "dirs (logger level msg fs) = dirs fs"
  "denied (logger level msg fs) = denied fs"
  by (simp_all add: logger_def)

lemma writeFileSync_Inr:
  "writeFileSync path content fs = Inr fs' \<Longrightarrow>
   fs' = fs\<lparr>files := (files fs)(realpath fs path \<mapsto> content)\<rparr>"
  by (simp add: writeFileSync_def split: if_splits)

lemma appendFileSync_Inr:
  "appendFileSync path content fs = Inr fs' \<Longrightarrow>
   \<exists>c. fs' = fs\<lparr>files := (files fs)(realpath fs path \<mapsto> c)\<rparr>"
  by (cases "files fs (realpath fs path)") (auto simp: appendFileSync_def split: if_splits)

lemma appendFileSync_existing:
  "files fs (realpath fs path) = Some old \<Longrightarrow> readFileSync path fs = Inr old' \<Longrightarrow>
   appendFileSync path content fs
     = Inr (fs\<lparr>files := (files fs)(realpath fs path \<mapsto> old @ content)\<rparr>)"
  by (simp add: appendFileSync_def readFileSync_def split: if_splits)

lemma readFileSync_Inr:
  "readFileSync path fs = Inr content \<Longrightarrow> files fs (realpath fs path) = Some content"
  by (cases "files fs (realpath fs path)") (simp_all add: readFileSync_def split: if_splits)

text \<open>One package path changes the ignore file of that path and nothing else.\<close>

lemma writeGitIgnoreFile_changes:
  "\<exists>c. snd (writeGitIgnoreFile q fs)
         = fs\<lparr>files := c, logged := logged (snd (writeGitIgnoreFile q fs))\<rparr>
       \<and> (\<forall>k. k \<noteq> realpath fs (q @ ''/.gitignore'') \<longrightarrow> c k = files fs k)"
proof -
  let ?fs = "logger ''info'' (''- '' @ q) fs"
  let ?p = "q @ ''/.gitignore''"
  show ?thesis
  proof (cases "existsSync ?p ?fs")
    case False
    let ?fs1 = "logger ''warning''
                  (''Package '' @ q @ '' has no '' @ [CHR 0x60] @ ''.gitignore''
                   @ [CHR 0x60] @ '' file, creating it...'') ?fs"
    show ?thesis
    proof (cases "writeFileSync ?p ''.hooks/*.local.json\<newline>'' ?fs1")
      case (Inl e)
      with False have "writeGitIgnoreFile q fs = (Some e, ?fs1)"
        by (simp add: writeGitIgnoreFile_def Let_def)
      then show ?thesis by (intro exI [of _ "files fs"]) (simp add: logger_def)
    next
      case (Inr fs2)
      with False have "writeGitIgnoreFile q fs = (None, fs2)"
        by (simp add: writeGitIgnoreFile_def Let_def)
      moreover from writeFileSync_Inr [OF Inr]
      have "fs2 = ?fs1\<lparr>files := (files ?fs1)(realpath ?fs1 ?p \<mapsto> ''.hooks/*.local.json\<newline>'')\<rparr>" .
      ultimately show ?thesis
        by (intro exI [of _ "(files fs)(realpath fs ?p \<mapsto> ''.hooks/*.local.json\<newline>'')"])
           (simp add: logger_def)
    qed
  next
    case True
    show ?thesis
    proof (cases "readFileSync ?p ?fs")
      case (Inl e)
      with True have "writeGitIgnoreFile q fs = (Some e, ?fs)"
        by (simp add: writeGitIgnoreFile_def Let_def)
      then show ?thesis by (intro exI [of _ "files fs"]) (simp add: logger_def)
    next
      case (Inr content)
      show ?thesis
      proof (cases "includes_str content ''.hooks/*.local.json''")
        case False
        with True Inr have "writeGitIgnoreFile q fs = (None, ?fs)"
          by (simp add: writeGitIgnoreFile_def Let_def)
        then show ?thesis by (intro exI [of _ "files fs"]) (simp add: logger_def)
      next
        case inc: True
        show ?thesis
        proof (cases "appendFileSync ?p ''\<newline>.hooks/*.local.json\<newline>'' ?fs")
          case (Inl e)
          with True Inr inc have "writeGitIgnoreFile q fs = (Some e, ?fs)"
            by (simp add: writeGitIgnoreFile_def Let_def)
          then show ?thesis by (intro exI [of _ "files fs"]) (simp add: logger_def)
        next
          case app: (Inr fs2)
          with True Inr inc have "writeGitIgnoreFile q fs = (None, fs2)"
            by (simp add: writeGitIgnoreFile_def Let_def)
          moreover from appendFileSync_Inr [OF app] obtain c where
            "fs2 = ?fs\<lparr>files := (files ?fs)(realpath ?fs ?p \<mapsto> c)\<rparr>" by blast
          ultimately show ?thesis
            by (intro exI [of _ "(files fs)(realpath fs ?p \<mapsto> c)"]) (simp add: logger_def)
        qed
      qed
    qed
  qed
qed

lemma writeGitIgnoreFile_frame:
  "realpath (snd (writeGitIgnoreFile q fs)) = realpath fs"
proof -
  from writeGitIgnoreFile_changes [of q fs] obtain c where
    "snd (writeGitIgnoreFile q fs) = fs\<lparr>files := c, logged := logged (snd (writeGitIgnoreFile q fs))\<rparr>"
    by blast
  then have "realpath (snd (writeGitIgnoreFile q fs))
             = realpath (fs\<lparr>files := c, logged := logged (snd (writeGitIgnoreFile q fs))\<rparr>)"
    by simp
  then show ?thesis by simp
qed

lemma writeGitIgnoreFile_other:
  assumes "realpath fs (q @ ''/.gitignore'') \<noteq> k"
  shows "files (snd (writeGitIgnoreFile q fs)) k = files fs k"
proof -
  from writeGitIgnoreFile_changes [of q fs] obtain c where
    eq: "snd (writeGitIgnoreFile q fs) = fs\<lparr>files := c, logged := logged (snd (writeGitIgnoreFile q fs))\<rparr>"
    and c: "\<forall>k. k \<noteq> realpath fs (q @ ''/.gitignore'') \<longrightarrow> c k = files fs k"
    by blast
  from eq have "files (snd (writeGitIgnoreFile q fs))
             = files (fs\<lparr>files := c, logged := logged (snd (writeGitIgnoreFile q fs))\<rparr>)"
    by simp
  then have "files (snd (writeGitIgnoreFile q fs)) = c" by simp
  with c assms show ?thesis by auto
qed

lemma writeGitIgnoreFile_existing:
  assumes ex: "files fs (realpath fs (q @ ''/.gitignore'')) = Some content"
  shows "files (snd (writeGitIgnoreFile q fs)) (realpath fs (q @ ''/.gitignore''))
     = Some (if includes_str content ''.hooks/*.local.json'' \<and> fst (writeGitIgnoreFile q fs) = None
             then content @ ''\<newline>.hooks/*.local.json\<newline>'' else content)"
proof -
  let ?fs = "logger ''info'' (''- '' @ q) fs"
  let ?p = "q @ ''/.gitignore''"
  have True: "existsSync ?p ?fs" using ex by (simp add: existsSync_def logger_keeps)
  show ?thesis
  proof (cases "readFileSync ?p ?fs")
    case (Inl e)
    with True have "writeGitIgnoreFile q fs = (Some e, ?fs)"
      by (simp add: writeGitIgnoreFile_def Let_def)
    then show ?thesis using ex by (simp add: logger_keeps)
  next
    case (Inr c)
    from readFileSync_Inr [OF Inr] ex have c: "c = content" by (simp add: logger_keeps)
    show ?thesis
    proof (cases "includes_str content ''.hooks/*.local.json''")
      case False
      with True Inr c have "writeGitIgnoreFile q fs = (None, ?fs)"
        by (simp add: writeGitIgnoreFile_def Let_def)
      then show ?thesis using ex False by (simp add: logger_keeps)
    next
      case inc: True
      have "files ?fs (realpath ?fs ?p) = Some content" using ex by (simp add: logger_keeps)
      from appendFileSync_existing [OF this Inr]
      have "appendFileSync ?p ''\<newline>.hooks/*.local.json\<newline>'' ?fs
            = Inr (?fs\<lparr>files := (files ?fs)(realpath ?fs ?p \<mapsto> content @ ''\<newline>.hooks/*.local.json\<newline>'')\<rparr>)" .
      with True Inr c inc have "writeGitIgnoreFile q fs
            = (None, ?fs\<lparr>files := (files ?fs)(realpath ?fs ?p \<mapsto> content @ ''\<newline>.hooks/*.local.json\<newline>'')\<rparr>)"
        by (simp add: writeGitIgnoreFile_def Let_def)
      then show ?thesis using inc by (simp add: logger_keeps)
    qed
  qed
qed

lemma writeGitIgnoreFiles_loop_existing:
  "files fs k = Some content \<Longrightarrow>
   \<exists>n. n \<le> length (filter (\<lambda>q. realpath fs (q @ ''/.gitignore'') = k) packagesPath)
      \<and> (fst (writeGitIgnoreFiles_loop packagesPath fs) = None
           \<longrightarrow> n = length (filter (\<lambda>q. realpath fs (q @ ''/.gitignore'') = k) packagesPath))
      \<and> files (snd (writeGitIgnoreFiles_loop packagesPath fs)) k
          = Some (if includes_str content ''.hooks/*.local.json''
                  then content @ concat (replicate n ''\<newline>.hooks/*.local.json\<newline>'')
                  else content)"
proof (induction packagesPath arbitrary: fs content)
  case Nil
  then show ?case by simp
next
  case (Cons q rest)
  define app where "app = ''\<newline>.hooks/*.local.json\<newline>''"
  define inc where "inc = includes_str content ''.hooks/*.local.json''"
  define cnt where "cnt = length (filter (\<lambda>q. realpath fs (q @ ''/.gitignore'') = k) rest)"
  obtain err fs1 where body: "writeGitIgnoreFile q fs = (err, fs1)"
    by (cases "writeGitIgnoreFile q fs") auto
  have rp: "realpath fs1 = realpath fs" using writeGitIgnoreFile_frame [of q fs] body by simp
  have f1: "files fs1 k = Some (if realpath fs (q @ ''/.gitignore'') = k \<and> inc \<and> err = None
                                then content @ app else content)"
  proof (cases "realpath fs (q @ ''/.gitignore'') = k")
    case True
    with writeGitIgnoreFile_existing [of fs q content] Cons.prems body show ?thesis
      by (simp add: inc_def app_def)
  next
    case False
    with writeGitIgnoreFile_other [OF False] body Cons.prems show ?thesis by simp
  qed
  have total: "length (filter (\<lambda>q. realpath fs (q @ ''/.gitignore'') = k) (q # rest))
               = (if realpath fs (q @ ''/.gitignore'') = k then Suc cnt else cnt)"
    by (simp add: cnt_def)
  show ?case
  proof (cases err)
    case (Some e)
    have "writeGitIgnoreFiles_loop (q # rest) fs = (Some e, fs1)"
      by (simp add: body Some)
    moreover have "files fs1 k = Some content" using f1 Some by simp
    ultimately have h: "0 \<le> length (filter (\<lambda>q. realpath fs (q @ ''/.gitignore'') = k) (q # rest))
      \<and> (fst (writeGitIgnoreFiles_loop (q # rest) fs) = None
           \<longrightarrow> 0 = length (filter (\<lambda>q. realpath fs (q @ ''/.gitignore'') = k) (q # rest)))
      \<and> files (snd (writeGitIgnoreFiles_loop (q # rest) fs)) k
          = Some (if includes_str content ''.hooks/*.local.json''
                  then content @ concat (replicate 0 ''\<newline>.hooks/*.local.json\<newline>'')
                  else content)"
      by simp
    show ?thesis by (rule exI [of _ 0]) (rule h)
  next
    case None
    have loop: "writeGitIgnoreFiles_loop (q # rest) fs = writeGitIgnoreFiles_loop rest fs1"
      by (simp add: body None)
    show ?thesis
    proof (cases "realpath fs (q @ ''/.gitignore'') = k \<and> inc")
      case True
      then have f1': "files fs1 k = Some (content @ app)" using f1 None by simp
      have inc': "includes_str (content @ app) ''.hooks/*.local.json''"
        using True by (simp add: inc_def includes_str_append)
      from Cons.IH [OF f1'] obtain n where
        n: "n \<le> cnt"
        and fin: "fst (writeGitIgnoreFiles_loop rest fs1) = None \<longrightarrow> n = cnt"
        and fl: "files (snd (writeGitIgnoreFiles_loop rest fs1)) k
          = Some ((content @ app) @ concat (replicate n app))"
        unfolding rp cnt_def [symmetric] app_def [symmetric] using inc' by (auto simp: app_def)
      have h: "Suc n \<le> length (filter (\<lambda>q. realpath fs (q @ ''/.gitignore'') = k) (q # rest))
        \<and> (fst (writeGitIgnoreFiles_loop (q # rest) fs) = None
             \<longrightarrow> Suc n = length (filter (\<lambda>q. realpath fs (q @ ''/.gitignore'') = k) (q # rest)))
        \<and> files (snd (writeGitIgnoreFiles_loop (q # rest) fs)) k
            = Some (if includes_str content ''.hooks/*.local.json''
                    then content @ concat (replicate (Suc n) ''\<newline>.hooks/*.local.json\<newline>'')
                    else content)"
        unfolding total loop using True n fin fl by (simp add: inc_def app_def)
      show ?thesis by (rule exI [of _ "Suc n"]) (rule h)
    next
      case False
      then have f1': "files fs1 k = Some content" using f1 by auto
      from Cons.IH [OF f1'] obtain n where
        n: "n \<le> cnt"
        and fin: "fst (writeGitIgnoreFiles_loop rest fs1) = None \<longrightarrow> n = cnt"
        and fl: "files (snd (writeGitIgnoreFiles_loop rest fs1)) k
          = Some (if inc then content @ concat (replicate n app) else content)"
        unfolding rp cnt_def [symmetric] inc_def [symmetric] app_def [symmetric] by auto
      let ?m = "if realpath fs (q @ ''/.gitignore'') = k then Suc n else n"
      have h: "?m \<le> length (filter (\<lambda>q. realpath fs (q @ ''/.gitignore'') = k) (q # rest))
        \<and> (fst (writeGitIgnoreFiles_loop (q # rest) fs) = None
             \<longrightarrow> ?m = length (filter (\<lambda>q. realpath fs (q @ ''/.gitignore'') = k) (q # rest)))
        \<and> files (snd (writeGitIgnoreFiles_loop (q # rest) fs)) k
            = Some (if includes_str content ''.hooks/*.local.json''
                    then content @ concat (replicate ?m ''\<newline>.hooks/*.local.json\<newline>'')
                    else content)"
        unfolding total loop using False n fin fl by (auto simp: inc_def app_def)
      show ?thesis by (rule exI [of _ ?m]) (rule h)
    qed
  qed
qed

text \<open>How the paths of the examples resolve.\<close>

lemma sample_paths:
  "collapseSlashes ''/r/a/.gitignore'' = ''/r/a/.gitignore''"
  "collapseSlashes ''/r/b/.gitignore'' = ''/r/b/.gitignore''"
  "collapseSlashes ''/r/b//.gitignore'' = ''/r/b/.gitignore''"
  "collapseSlashes ''/r/nodir/.gitignore'' = ''/r/nodir/.gitignore''"
  "collapseSlashes ''/r/nodir'' = ''/r/nodir''"
  by (simp_all add: collapseSlashes_def)

text \<open>
  C9. A package whose \<^verbatim>\<open>.gitignore\<close> exists when \<^verbatim>\<open>writeGitIgnoreFiles\<close> is called.
  If the file does not contain the line \<^verbatim>\<open>.hooks/*.local.json\<close>, it is left as it is,
  whatever the list of packages and whether the call throws or not. If the file
  contains the line, the line is appended to it (between two line breaks) and nothing
  else is done to it: once for each path of the list that names this file, when the
  call returns, and for some of them, the first ones, when it throws on the way.
\<close>

theorem writeGitIgnoreFiles_appends_only_when_present:
  assumes "files fs (realpath fs (pkgPath @ ''/.gitignore'')) = Some content"
  shows "\<exists>n. n \<le> length (filter (\<lambda>q. realpath fs (q @ ''/.gitignore'')
                                      = realpath fs (pkgPath @ ''/.gitignore'')) packagesPath)
      \<and> (fst (writeGitIgnoreFiles packagesPath fs) = None
           \<longrightarrow> n = length (filter (\<lambda>q. realpath fs (q @ ''/.gitignore'')
                                      = realpath fs (pkgPath @ ''/.gitignore'')) packagesPath))
      \<and> files (snd (writeGitIgnoreFiles packagesPath fs)) (realpath fs (pkgPath @ ''/.gitignore''))
          = Some (if includes_str content ''.hooks/*.local.json''
                  then content @ concat (replicate n ''\<newline>.hooks/*.local.json\<newline>'')
                  else content)"
  using writeGitIgnoreFiles_loop_existing
    [of "logger ''info'' (''Writing '' @ [CHR 0x60] @ ''.gitignore files'' @ [CHR 0x60]) fs"
        "realpath fs (pkgPath @ ''/.gitignore'')" content packagesPath] assms
  by (simp add: writeGitIgnoreFiles_def logger_def)

theorem writeGitIgnoreFiles_appends_only_when_present_witness:
  "files sampleFiles (realpath sampleFiles (''/r/a'' @ ''/.gitignore'')) = Some ''node_modules\<newline>''
   \<and> files sampleFiles (realpath sampleFiles (''/r/b'' @ ''/.gitignore'')) = Some ''.hooks/*.local.json\<newline>''
   \<and> fst (writeGitIgnoreFiles [''/r/a'', ''/r/b'', ''/r/b/''] sampleFiles) = None
   \<and> files (snd (writeGitIgnoreFiles [''/r/a'', ''/r/b'', ''/r/b/''] sampleFiles)) ''/r/a/.gitignore''
       = Some ''node_modules\<newline>''
   \<and> files (snd (writeGitIgnoreFiles [''/r/a'', ''/r/b'', ''/r/b/''] sampleFiles)) ''/r/b/.gitignore''
       = Some ''.hooks/*.local.json\<newline>\<newline>.hooks/*.local.json\<newline>\<newline>.hooks/*.local.json\<newline>''"
  using writeGitIgnoreFiles_appends_only_when_present [of sampleFiles "''/r/a''" "''node_modules\<newline>''" "[''/r/a'', ''/r/b'', ''/r/b/'']"]
    writeGitIgnoreFiles_appends_only_when_present [of sampleFiles "''/r/b''" "''.hooks/*.local.json\<newline>''" "[''/r/a'', ''/r/b'', ''/r/b/'']"]
  by (simp add: sampleFiles_def sample_paths writeGitIgnoreFiles_def writeGitIgnoreFile_def logger_def
        existsSync_def readFileSync_def appendFileSync_def includes_str_def)

text \<open>
  A package directory that does not exist makes \<^verbatim>\<open>writeFileSync\<close> throw, and the
  packages after it are not reached.
\<close>

lemma missing_directory_ends_the_loop:
  "fst (writeGitIgnoreFiles [''/r/nodir'', ''/r/b''] sampleFiles) = Some (ENOENT ''/r/nodir/.gitignore'')
   \<and> files (snd (writeGitIgnoreFiles [''/r/nodir'', ''/r/b''] sampleFiles)) ''/r/b/.gitignore''
       = Some ''.hooks/*.local.json\<newline>''"
  by (simp add: sampleFiles_def sample_paths writeGitIgnoreFiles_def writeGitIgnoreFile_def logger_def
        existsSync_def writeFileSync_def dirname_def)

end
